theory Spec2Isabelle
  imports Main "HOL-Library.Stream"
begin

section \<open>Nim: state, moves and the three solvers of Nim\_Game.py\<close>

text \<open>
  A state is a Python list of ints, one per pile. A move is a pair (pile index, take).
  The successor list holds triples (pile index, take, resulting state).
\<close>

type_synonym state = "int list"
type_synonym move = "nat \<times> int"
type_synonym successor = "nat \<times> int \<times> state"

subsection \<open>Search values: Python ints together with the floats \<open>-math.inf\<close> and \<open>math.inf\<close>\<close>

datatype ext = MInf | Fin int | PInf

instantiation ext :: linorder
begin

fun less_eq_ext :: "ext \<Rightarrow> ext \<Rightarrow> bool" where
  "less_eq_ext MInf y = True"
| "less_eq_ext (Fin a) MInf = False"
| "less_eq_ext (Fin a) (Fin b) = (a \<le> b)"
| "less_eq_ext (Fin a) PInf = True"
| "less_eq_ext PInf MInf = False"
| "less_eq_ext PInf (Fin b) = False"
| "less_eq_ext PInf PInf = True"

definition less_ext :: "ext \<Rightarrow> ext \<Rightarrow> bool" where
  "less_ext x y = (x \<le> y \<and> \<not> y \<le> (x::ext))"

instance
proof
  fix x y z :: ext
  show "(x < y) = (x \<le> y \<and> \<not> y \<le> x)"
    by (simp add: less_ext_def)
  show "x \<le> x"
    by (cases x) simp_all
  show "x \<le> y \<Longrightarrow> y \<le> z \<Longrightarrow> x \<le> z"
    by (cases x; cases y; cases z) simp_all
  show "x \<le> y \<Longrightarrow> y \<le> x \<Longrightarrow> x = y"
    by (cases x; cases y) simp_all
  show "x \<le> y \<or> y \<le> x"
    by (cases x; cases y) auto
qed

end

subsection \<open>Game logic\<close>

text \<open>\<^verbatim>\<open>def is_terminal(state): return all(h == 0 for h in state)\<close>\<close>

definition is_terminal :: "state \<Rightarrow> bool" where
  "is_terminal s = list_all (\<lambda>h. h = 0) s"

text \<open>
  \<^verbatim>\<open>def utility(state, maximizing): return -1 if maximizing else 1 if is_terminal(state) else 0\<close>
  Python's conditional expression groups to the right:
  \<^verbatim>\<open>-1 if maximizing else (1 if is_terminal(state) else 0)\<close>.
\<close>

definition utility :: "state \<Rightarrow> bool \<Rightarrow> int" where
  "utility s maximizing = (if maximizing then - 1 else (if is_terminal s then 1 else 0))"

text \<open>
  \<^verbatim>\<open>
  def get_successors(state):
      moves = []
      for i, cnt in enumerate(state):
          for take in range(1, cnt + 1):
              new_state = state.copy()
              new_state[i] -= take
              moves.append((i, take, new_state))
      return moves
  \<close>
  Both loops are folds that append to \<open>moves\<close>; \<open>range(1, cnt + 1)\<close> is \<open>[1..cnt]\<close>,
  empty when \<open>cnt \<le> 0\<close>. The index \<open>i\<close> comes from \<open>enumerate\<close>, so it is in range.
\<close>

definition get_successors :: "state \<Rightarrow> successor list" where
  "get_successors s =
     foldl (\<lambda>moves (i, cnt).
              foldl (\<lambda>moves take'. moves @ [(i, take', s[i := s ! i - take'])]) moves [1..cnt])
           [] (enumerate 0 s)"

text \<open>The number of tokens still on the table (negative entries offer no move and count as none).\<close>

definition tokens :: "state \<Rightarrow> nat" where
  "tokens s = sum_list (map nat s)"

text \<open>
  \<^verbatim>\<open>
  def minimax(state, maximizing):
      if is_terminal(state):
          return utility(state, maximizing), None
      best_val, best_move = (-math.inf, None) if maximizing else (math.inf, None)
      for i, take, new_state in get_successors(state):
          val, _ = minimax(new_state, not maximizing)
          if (maximizing and val > best_val) or (not maximizing and val < best_val):
              best_val, best_move = val, (i, take)
      return best_val, best_move
  \<close>
\<close>

lemma get_successors_inner:
  "foldl (\<lambda>moves take'. moves @ [(i, take', s[i := s ! i - take'])]) acc ts
     = acc @ map (\<lambda>take'. (i, take', s[i := s ! i - take'])) ts"
  by (induction ts arbitrary: acc) simp_all

lemma get_successors_outer:
  "foldl (\<lambda>moves (i, cnt).
            foldl (\<lambda>moves take'. moves @ [(i, take', s[i := s ! i - take'])]) moves [1..cnt]) acc ps
     = acc @ concat (map (\<lambda>(i, cnt). map (\<lambda>take'. (i, take', s[i := s ! i - take'])) [1..cnt]) ps)"
  by (induction ps arbitrary: acc) (simp_all add: get_successors_inner split_beta)

lemma get_successors_concat:
  "get_successors s =
     concat (map (\<lambda>(i, cnt). map (\<lambda>take'. (i, take', s[i := s ! i - take'])) [1..cnt]) (enumerate 0 s))"
  by (simp add: get_successors_def get_successors_outer)

lemma get_successors_member:
  "(i, t, ns) \<in> set (get_successors s) \<longleftrightarrow>
     i < length s \<and> 1 \<le> t \<and> t \<le> s ! i \<and> ns = s[i := s ! i - t]"
proof
  assume "(i, t, ns) \<in> set (get_successors s)"
  then show "i < length s \<and> 1 \<le> t \<and> t \<le> s ! i \<and> ns = s[i := s ! i - t]"
    by (auto simp: get_successors_concat in_set_enumerate_eq)
next
  assume a: "i < length s \<and> 1 \<le> t \<and> t \<le> s ! i \<and> ns = s[i := s ! i - t]"
  then have "(i, s ! i) \<in> set (enumerate 0 s)"
    by (simp add: in_set_enumerate_eq)
  moreover from a have "(i, t, ns) \<in> set (map (\<lambda>take'. (i, take', s[i := s ! i - take'])) [1..s ! i])"
    by simp
  ultimately show "(i, t, ns) \<in> set (get_successors s)"
    unfolding get_successors_concat set_concat by (intro UN_I [where a = "map (\<lambda>take'. (i, take', s[i := s ! i - take'])) [1..s ! i]"]) (auto intro!: image_eqI [where x = "(i, s ! i)"])
qed

lemma tokens_update:
  "i < length s \<Longrightarrow> tokens (s[i := v]) + nat (s ! i) = tokens s + nat v"
  unfolding tokens_def
proof (induction s arbitrary: i)
  case Nil
  then show ?case by simp
next
  case (Cons a s)
  then show ?case by (cases i) auto
qed

lemma tokens_successor:
  assumes "(i, t, ns) \<in> set (get_successors s)"
  shows "tokens ns < tokens s"
proof -
  from assms have i: "i < length s" and t: "1 \<le> t" "t \<le> s ! i"
    and ns: "ns = s[i := s ! i - t]"
    by (simp_all add: get_successors_member)
  from tokens_update [OF i, of "s ! i - t"] ns
  have "tokens ns + nat (s ! i) = tokens s + nat (s ! i - t)" by simp
  moreover from t have "nat (s ! i - t) < nat (s ! i)" by linarith
  ultimately show ?thesis by linarith
qed

function minimax :: "state \<Rightarrow> bool \<Rightarrow> ext \<times> move option" where
  "minimax s maximizing =
     (if is_terminal s then (Fin (utility s maximizing), None)
      else foldl (\<lambda>best m.
                    case best of (best_val, best_move) \<Rightarrow>
                    case m of (i, take', new_state) \<Rightarrow>
                    let val = fst (minimax new_state (\<not> maximizing))
                    in if (maximizing \<and> val > best_val) \<or> (\<not> maximizing \<and> val < best_val)
                       then (val, Some (i, take')) else (best_val, best_move))
                 (if maximizing then (MInf, None) else (PInf, None))
                 (get_successors s))"
  by pat_completeness auto
termination
  by (relation "measure (\<lambda>(s, maximizing). tokens s)") (auto simp: tokens_successor)

declare minimax.simps [simp del]

text \<open>
  \<^verbatim>\<open>
  def minimax_ab(state, alpha, beta, maximizing):
      if is_terminal(state):
          return utility(state, maximizing), None
      best_move = None
      if maximizing:
          value = -math.inf
          for i, take, new_state in get_successors(state):
              val, _ = minimax_ab(new_state, alpha, beta, False)
              if val > value:
                  value, best_move = val, (i, take)
              alpha = max(alpha, value)
              if alpha >= beta:
                  break
          return value, best_move
      else:
          value = math.inf
          for i, take, new_state in get_successors(state):
              val, _ = minimax_ab(new_state, alpha, beta, True)
              if val < value:
                  value, best_move = val, (i, take)
              beta = min(beta, value)
              if beta <= alpha:
                  break
          return value, best_move
  \<close>
  The two loops leave early through \<open>break\<close>, so each is a recursive function over the
  remaining successors that carries \<open>value\<close>, \<open>best_move\<close> and the bound it updates.
\<close>

fun loop_weight :: "successor list \<Rightarrow> nat" where
  "loop_weight [] = 0"
| "loop_weight ((i, t, ns) # rest) = max (2 * tokens ns + 2) (loop_weight rest)"

lemma loop_weight_bound:
  "(\<And>i t ns. (i, t, ns) \<in> set ms \<Longrightarrow> tokens ns < n) \<Longrightarrow> loop_weight ms < 2 * n + 1"
proof (induction ms)
  case Nil
  then show ?case by simp
next
  case (Cons m ms)
  obtain i t ns where m: "m = (i, t, ns)" by (cases m)
  from Cons.prems [of i t ns] m have "tokens ns < n" by simp
  moreover have "loop_weight ms < 2 * n + 1"
    using Cons.prems by (intro Cons.IH) auto
  ultimately show ?case using m by simp
qed

function minimax_ab :: "state \<Rightarrow> ext \<Rightarrow> ext \<Rightarrow> bool \<Rightarrow> ext \<times> move option"
  and ab_max_loop :: "successor list \<Rightarrow> ext \<Rightarrow> move option \<Rightarrow> ext \<Rightarrow> ext \<Rightarrow> ext \<times> move option"
  and ab_min_loop :: "successor list \<Rightarrow> ext \<Rightarrow> move option \<Rightarrow> ext \<Rightarrow> ext \<Rightarrow> ext \<times> move option"
where
  "minimax_ab s alpha beta maximizing =
     (if is_terminal s then (Fin (utility s maximizing), None)
      else if maximizing then ab_max_loop (get_successors s) MInf None alpha beta
      else ab_min_loop (get_successors s) PInf None alpha beta)"
| "ab_max_loop [] value best_move alpha beta = (value, best_move)"
| "ab_max_loop ((i, take', new_state) # rest) value best_move alpha beta =
     (let val = fst (minimax_ab new_state alpha beta False);
          value' = (if val > value then val else value);
          best_move' = (if val > value then Some (i, take') else best_move);
          alpha' = max alpha value'
      in if alpha' \<ge> beta then (value', best_move')
         else ab_max_loop rest value' best_move' alpha' beta)"
| "ab_min_loop [] value best_move alpha beta = (value, best_move)"
| "ab_min_loop ((i, take', new_state) # rest) value best_move alpha beta =
     (let val = fst (minimax_ab new_state alpha beta True);
          value' = (if val < value then val else value);
          best_move' = (if val < value then Some (i, take') else best_move);
          beta' = min beta value'
      in if beta' \<le> alpha then (value', best_move')
         else ab_min_loop rest value' best_move' alpha beta')"
  by pat_completeness auto
termination
proof (relation "measures
    [\<lambda>x. case x of Inl (s, _) \<Rightarrow> 2 * tokens s + 1
                 | Inr (Inl (ms, _)) \<Rightarrow> loop_weight ms
                 | Inr (Inr (ms, _)) \<Rightarrow> loop_weight ms,
     \<lambda>x. case x of Inl _ \<Rightarrow> 0
                 | Inr (Inl (ms, _)) \<Rightarrow> length ms
                 | Inr (Inr (ms, _)) \<Rightarrow> length ms]", goal_cases)
  case 1
  then show ?case by simp
next
  case (2 s alpha beta maximizing)
  have "loop_weight (get_successors s) < 2 * tokens s + 1"
    by (rule loop_weight_bound) (rule tokens_successor)
  then show ?case by simp
next
  case (3 s alpha beta maximizing)
  have "loop_weight (get_successors s) < 2 * tokens s + 1"
    by (rule loop_weight_bound) (rule tokens_successor)
  then show ?case by simp
next
  case 4
  then show ?case by (auto simp: max_def)
next
  case 5
  then show ?case by (auto simp: max_def)
next
  case 6
  then show ?case by (auto simp: max_def)
next
  case 7
  then show ?case by (auto simp: max_def)
qed

declare minimax_ab.simps [simp del]

subsection \<open>The move generator\<close>

lemma get_successors_upt:
  "get_successors s =
     concat (map (\<lambda>i. map (\<lambda>take'. (i, take', s[i := s ! i - take'])) [1..s ! i]) [0..<length s])"
proof -
  have "map (\<lambda>(i, cnt). map (\<lambda>take'. (i, take', s[i := s ! i - take'])) [1..cnt]) (enumerate 0 s)
      = map (\<lambda>i. map (\<lambda>take'. (i, take', s[i := s ! i - take'])) [1..s ! i]) [0..<length s]"
    by (rule nth_equalityI) (simp_all add: nth_enumerate_eq)
  then show ?thesis by (simp add: get_successors_concat)
qed

definition move_before :: "successor \<Rightarrow> successor \<Rightarrow> bool" where
  "move_before a b = (fst a < fst b \<or> (fst a = fst b \<and> fst (snd a) < fst (snd b)))"

lemma sorted_wrt_concat_map:
  assumes "\<And>x. x \<in> set xs \<Longrightarrow> sorted_wrt R (f x)"
    and "sorted_wrt (\<lambda>x y. \<forall>a\<in>set (f x). \<forall>b\<in>set (f y). R a b) xs"
  shows "sorted_wrt R (concat (map f xs))"
  using assms by (induction xs) (auto simp: sorted_wrt_append)

lemma get_successors_sorted: "sorted_wrt move_before (get_successors s)"
  unfolding get_successors_upt
proof (rule sorted_wrt_concat_map)
  fix i
  show "sorted_wrt move_before (map (\<lambda>take'. (i, take', s[i := s ! i - take'])) [1..s ! i])"
    by (simp add: sorted_wrt_map move_before_def)
next
  have "sorted_wrt (<) [0..<length s]" by simp
  then show "sorted_wrt (\<lambda>x y.
      \<forall>a\<in>set (map (\<lambda>take'. (x, take', s[x := s ! x - take'])) [1..s ! x]).
      \<forall>b\<in>set (map (\<lambda>take'. (y, take', s[y := s ! y - take'])) [1..s ! y]). move_before a b)
    [0..<length s]"
    by (rule sorted_wrt_mono_rel [rotated]) (auto simp: move_before_def)
qed

lemma sum_list_update_int:
  "i < length s \<Longrightarrow> sum_list (s[i := v]) = sum_list s - s ! i + (v::int)"
proof (induction s arbitrary: i)
  case Nil
  then show ?case by simp
next
  case (Cons a s)
  then show ?case by (cases i) auto
qed

lemma get_successors_terminal: "is_terminal s \<Longrightarrow> get_successors s = []"
  by (auto simp: get_successors_upt is_terminal_def list_all_length)

lemma minimax_terminal:
  "is_terminal s \<Longrightarrow> minimax s maximizing = (Fin (if maximizing then - 1 else 1), None)"
  by (simp add: minimax.simps utility_def)

lemma minimax_ab_terminal:
  "is_terminal s \<Longrightarrow>
     minimax_ab s alpha beta maximizing = (Fin (if maximizing then - 1 else 1), None)"
  by (simp add: minimax_ab.simps utility_def)

text \<open>
  C3. The specification says that utility is 0 on every state that is not terminal. On the
  state [1] with the maximizing flag set the function returns -1: the conditional expression
  tests the flag first and never looks at the state.
\<close>

theorem utility_nonterminal_maximizing:
  "\<not> is_terminal [1] \<and> utility [1] True = - 1"
  by (simp add: utility_def is_terminal_def)

text \<open>
  C4. On a state whose piles are all zero, minimax and minimax\_ab (started with the bounds
  -infinity and +infinity) both return the value -1 when the maximizing flag is set and +1
  otherwise, together with no move.
\<close>

theorem solvers_at_terminal:
  assumes "\<forall>c\<in>set s. c = 0"
  shows "minimax s maximizing = (Fin (if maximizing then - 1 else 1), None)
       \<and> minimax_ab s MInf PInf maximizing = (Fin (if maximizing then - 1 else 1), None)"
proof -
  from assms have "is_terminal s"
    by (simp add: is_terminal_def list_all_iff)
  then show ?thesis
    using minimax_terminal minimax_ab_terminal by blast
qed

theorem solvers_at_terminal_witness:
  "minimax [0, 0, 0, 0] True = (Fin (- 1), None)
     \<and> minimax_ab [0, 0, 0, 0] MInf PInf True = (Fin (- 1), None)
     \<and> minimax [0, 0, 0, 0] False = (Fin 1, None)
     \<and> minimax_ab [0, 0, 0, 0] MInf PInf False = (Fin 1, None)"
  using solvers_at_terminal [of "[0, 0, 0, 0]" True] solvers_at_terminal [of "[0, 0, 0, 0]" False]
  by simp

text \<open>
  C5. The move generator lists one triple (pile, take, resulting state) for every pile index
  i and every take from 1 up to the count of pile i (none when the count is not positive),
  and nothing else; the resulting state is the input with pile i reduced by the take and every
  other pile as it was. The list is strictly ascending in the pile index and, within a pile,
  in the take, so no (pile, take) occurs twice. The input list is a value here: the copy the
  code takes before it subtracts is the list update.
\<close>

theorem get_successors_enumeration:
  "get_successors s =
     concat (map (\<lambda>i. map (\<lambda>t. (i, t, s[i := s ! i - t])) [1..s ! i]) [0..<length s])
   \<and> ((i, t, ns) \<in> set (get_successors s) \<longleftrightarrow>
        (i < length s \<and> 1 \<le> t \<and> t \<le> s ! i \<and> ns = s[i := s ! i - t]))
   \<and> sorted_wrt move_before (get_successors s)"
  using get_successors_upt [of s] get_successors_member [of i t ns s] get_successors_sorted [of s]
  by blast

text \<open>
  C6. Every triple of the move generator has a take of at least 1 and a resulting state whose
  sum is the sum of the input minus the take; a state whose piles are all zero has no move,
  and the move list of [0,0,0,0] is empty.
\<close>

theorem successor_token_sum:
  "(\<forall>m\<in>set (get_successors s).
       sum_list (snd (snd m)) = sum_list s - fst (snd m) \<and> 1 \<le> fst (snd m))
   \<and> ((\<forall>c\<in>set s. c = 0) \<longrightarrow> get_successors s = [])
   \<and> get_successors [0, 0, 0, 0] = []"
proof (intro conjI ballI impI)
  fix m assume m: "m \<in> set (get_successors s)"
  obtain i t ns where "m = (i, t, ns)" by (cases m)
  with m have "i < length s" "1 \<le> t" "ns = s[i := s ! i - t]"
    by (simp_all add: get_successors_member)
  then show "sum_list (snd (snd m)) = sum_list s - fst (snd m)" "1 \<le> fst (snd m)"
    using \<open>m = (i, t, ns)\<close> by (simp_all add: sum_list_update_int)
next
  assume "\<forall>c\<in>set s. c = 0"
  then show "get_successors s = []"
    by (intro get_successors_terminal) (simp add: is_terminal_def list_all_iff)
next
  show "get_successors [0, 0, 0, 0] = []"
    by (intro get_successors_terminal) (simp add: is_terminal_def)
qed

theorem successor_token_sum_witness:
  "get_successors [2, 1] = [(0, 1, [1, 1]), (0, 2, [0, 1]), (1, 1, [2, 0])]
   \<and> list_all (\<lambda>m. sum_list (snd (snd m)) = sum_list [2, 1] - fst (snd m) \<and> 1 \<le> fst (snd m))
        (get_successors [2, 1])
   \<and> get_successors [0, 0] = []"
proof -
  have g: "get_successors [2, 1] = [(0, 1, [1, 1]), (0, 2, [0, 1]), (1, 1, [2, 0])]"
    by (simp add: get_successors_def enumerate_eq_zip upto.simps)
  have "\<forall>c\<in>set [0, 0 :: int]. c = 0" by simp
  with successor_token_sum [of "[2, 1]"] successor_token_sum [of "[0, 0]"] g
  show ?thesis by (simp add: list_all_iff)
qed

end
